theory Spec2Isabelle
  imports Complex_Main "HOL-Library.Sublist" "HOL-Library.AList" "HOL-Library.Char_ord"
    "HOL-Library.List_Lexorder"
begin

section \<open>The compact trie (compact_trie.py)\<close>

text \<open>
  A \<open>TrieNode\<close> object has the four fields \<open>label\<close>, \<open>children\<close>, \<open>is_terminal\<close> and
  \<open>inverted_index\<close>. The type is recursive, so it is a datatype with selectors rather
  than a record. The \<open>children\<close> dictionary is an association list: Python dictionaries
  keep insertion order, assigning to a present key replaces the value in place and
  assigning to an absent key appends (\<open>AList.update\<close>); a lookup is \<open>map_of\<close>.
  Nodes are owned by exactly one parent, so in-place mutation of a child is modelled
  by rebuilding the path from the root. A \<open>CompactTrie\<close> object holds nothing but its
  root node and is modelled by that node.
\<close>

datatype TrieNode = TrieNode (label: string) (children: "(char \<times> TrieNode) list")
  (is_terminal: bool) (inverted_index: "(int \<times> int) list")

definition empty_trie :: TrieNode where
  "empty_trie = TrieNode [] [] False []"

text \<open>The loop of \<open>_find_mismatch_point\<close>, with the index \<open>i\<close> as loop variable.\<close>

function fmp_loop :: "string \<Rightarrow> string \<Rightarrow> nat \<Rightarrow> nat" where
  "fmp_loop word lbl i =
     (if i < min (length word) (length lbl) \<and> word ! i = lbl ! i
      then fmp_loop word lbl (i + 1) else i)"
  by pat_completeness auto

termination
  by (relation "measure (\<lambda>(word, lbl, i). min (length word) (length lbl) - i)") auto

definition find_mismatch_point :: "string \<Rightarrow> string \<Rightarrow> nat" where
  "find_mismatch_point word lbl = fmp_loop word lbl 0"

definition new_leaf :: "string \<Rightarrow> int \<Rightarrow> int \<Rightarrow> TrieNode" where
  "new_leaf w d f = TrieNode w [] True [(d, f)]"

definition set_child :: "TrieNode \<Rightarrow> char \<Rightarrow> TrieNode \<Rightarrow> TrieNode" where
  "set_child n c ch =
     TrieNode (label n) (AList.update c ch (children n)) (is_terminal n) (inverted_index n)"

text \<open>
  \<open>CompactTrie.insert\<close>: the \<open>while remaining_word\<close> loop, started at \<open>current_node\<close>.
  Cases A, B and D and the missing-child case return; case C continues with the child.
  When none of the four conditions holds (the child stored under \<open>char\<close> has a non-empty
  label that does not start with \<open>char\<close>) the loop body changes nothing and the loop
  runs forever: the model returns \<open>None\<close> exactly then.
\<close>

function insert_trie :: "TrieNode \<Rightarrow> string \<Rightarrow> int \<Rightarrow> int \<Rightarrow> TrieNode option" where
  "insert_trie current_node remaining_word doc_id frequency =
    (if remaining_word = [] then Some current_node
     else let char = hd remaining_word in
       case map_of (children current_node) char of
         None \<Rightarrow> Some (set_child current_node char (new_leaf remaining_word doc_id frequency))
       | Some child_node \<Rightarrow>
          let child_label = label child_node;
              mismatch_idx = find_mismatch_point remaining_word child_label in
          if mismatch_idx = length remaining_word \<and> mismatch_idx = length child_label then
            Some (set_child current_node char
              (TrieNode child_label (children child_node) True
                 (inverted_index child_node @ [(doc_id, frequency)])))
          else if mismatch_idx = length remaining_word then
            (let remaining_label = drop mismatch_idx child_label;
                 new_node = TrieNode remaining_word
                   [(hd remaining_label, TrieNode remaining_label (children child_node)
                       (is_terminal child_node) (inverted_index child_node))]
                   True [(doc_id, frequency)]
             in Some (set_child current_node char new_node))
          else if mismatch_idx = length child_label then
            (case insert_trie child_node (drop mismatch_idx remaining_word) doc_id frequency of
               None \<Rightarrow> None
             | Some child' \<Rightarrow> Some (set_child current_node char child'))
          else if 0 < mismatch_idx \<and> mismatch_idx < length child_label then
            (let old_part = TrieNode (drop mismatch_idx child_label) (children child_node)
                       (is_terminal child_node) (inverted_index child_node);
                 new_word_part = drop mismatch_idx remaining_word;
                 new_node = new_leaf new_word_part doc_id frequency;
                 split_node = TrieNode (take mismatch_idx child_label)
                    (AList.update (hd new_word_part) new_node [(hd (label old_part), old_part)])
                    False []
             in Some (set_child current_node char split_node))
          else None)"
  by pat_completeness auto

termination
proof (relation "measure (\<lambda>(n, w, d, f). size n)", goal_cases)
  case 1
  show ?case by simp
next
  case (2 n w d f c ch)
  then have "(c, ch) \<in> set (children n)" by (auto dest: map_of_SomeD)
  then have "size ch < size n"
    by (cases n) (auto dest!: size_list_estimation'
        [where f = "size_prod (\<lambda>_. 0) size" and y = "size ch"])
  then show ?case by simp
qed

text \<open>\<open>CompactTrie.find\<close>: the same loop shape; every path returns.\<close>

function find_trie :: "TrieNode \<Rightarrow> string \<Rightarrow> (int \<times> int) list" where
  "find_trie current_node remaining_word =
    (if remaining_word = [] then
       (if is_terminal current_node then inverted_index current_node else [])
     else let char = hd remaining_word in
       case map_of (children current_node) char of
         None \<Rightarrow> []
       | Some child_node \<Rightarrow>
          let child_label = label child_node;
              mismatch_idx = find_mismatch_point remaining_word child_label in
          if mismatch_idx = length remaining_word then
            (if mismatch_idx = length child_label then
               (if is_terminal child_node then inverted_index child_node else [])
             else [])
          else if mismatch_idx = length child_label then
            find_trie child_node (drop mismatch_idx remaining_word)
          else [])"
  by pat_completeness auto

termination
proof (relation "measure (\<lambda>(n, w). size n)", goal_cases)
  case 1
  show ?case by simp
next
  case (2 n w c ch)
  then have "(c, ch) \<in> set (children n)" by (auto dest: map_of_SomeD)
  then have "size ch < size n"
    by (cases n) (auto dest!: size_list_estimation'
        [where f = "size_prod (\<lambda>_. 0) size" and y = "size ch"])
  then show ?case by simp
qed

declare fmp_loop.simps [simp del] insert_trie.simps [simp del] find_trie.simps [simp del]

text \<open>A sequence of \<open>insert\<close> calls on one trie, in order.\<close>

fun insert_all :: "TrieNode \<Rightarrow> (string \<times> int \<times> int) list \<Rightarrow> TrieNode option" where
  "insert_all t [] = Some t"
| "insert_all t ((w, d, f) # ops) =
     (case insert_trie t w d f of None \<Rightarrow> None | Some t' \<Rightarrow> insert_all t' ops)"

section \<open>The query pipeline (RI.py)\<close>

definition OP_PRECEDENCE :: "string \<rightharpoonup> nat" where
  "OP_PRECEDENCE = [''OR'' \<mapsto> 1, ''AND'' \<mapsto> 2, ''('' \<mapsto> 0, '')'' \<mapsto> 0]"

text \<open>
  Strings are lists of 8-bit characters. \<open>str.split()\<close> without argument splits at runs
  of white space; these are the white-space characters of Python below code point 256.
  \<open>str.lower()\<close> is modelled on the ASCII letters and leaves every other character as
  it is.
\<close>

definition is_space :: "char \<Rightarrow> bool" where
  "is_space c = (let k = (of_char c :: nat) in
     (9 \<le> k \<and> k \<le> 13) \<or> (28 \<le> k \<and> k \<le> 32) \<or> k = 133 \<or> k = 160)"

fun split_acc :: "string \<Rightarrow> string \<Rightarrow> string list" where
  "split_acc [] cur = (if cur = [] then [] else [cur])"
| "split_acc (c # cs) cur =
     (if is_space c then (if cur = [] then split_acc cs [] else cur # split_acc cs [])
      else split_acc cs (cur @ [c]))"

definition split_ws :: "string \<Rightarrow> string list" where
  "split_ws s = split_acc s []"

definition strip :: "string \<Rightarrow> string" where
  "strip s = rev (dropWhile is_space (rev (dropWhile is_space s)))"

definition lower_char :: "char \<Rightarrow> char" where
  "lower_char c = (let k = (of_char c :: nat) in
     if 65 \<le> k \<and> k \<le> 90 then char_of (k + 32) else c)"

definition lower :: "string \<Rightarrow> string" where
  "lower s = map lower_char s"

definition replace_char :: "char \<Rightarrow> string \<Rightarrow> string \<Rightarrow> string" where
  "replace_char c r s = concat (map (\<lambda>x. if x = c then r else [x]) s)"

definition tokenize_query :: "string \<Rightarrow> string list" where
  "tokenize_query query =
     (let query' = replace_char (CHR '')'') '' ) '' (replace_char (CHR ''('') '' ( '' query);
          tokens = split_ws query'
      in concat (map (\<lambda>token.
            if strip token \<noteq> [] then
              (if OP_PRECEDENCE token \<noteq> None then [token] else [lower token])
            else []) tokens))"

text \<open>
  \<open>_to_rpn\<close>. The operator stack is a list whose head is the top (\<open>operator_stack[-1]\<close>).
  The two inner \<open>while\<close> loops pop from the stack to the output.
\<close>

fun pop_to_lparen :: "string list \<Rightarrow> string list \<Rightarrow> string list \<times> string list" where
  "pop_to_lparen output [] = (output, [])"
| "pop_to_lparen output (op # rest) =
     (if op \<noteq> ''('' then pop_to_lparen (output @ [op]) rest else (output, op # rest))"

fun pop_higher :: "nat \<Rightarrow> string list \<Rightarrow> string list \<Rightarrow> string list \<times> string list" where
  "pop_higher p output [] = (output, [])"
| "pop_higher p output (op # rest) =
     (if op \<noteq> ''('' \<and> (case OP_PRECEDENCE op of None \<Rightarrow> 0 | Some q \<Rightarrow> q) \<ge> p
      then pop_higher p (output @ [op]) rest else (output, op # rest))"

fun to_rpn_step :: "string list \<times> string list \<Rightarrow> string \<Rightarrow> string list \<times> string list" where
  "to_rpn_step (output, operator_stack) token =
     (case OP_PRECEDENCE token of
        None \<Rightarrow> (output @ [token], operator_stack)
      | Some p \<Rightarrow>
         if token = ''('' then (output, token # operator_stack)
         else if token = '')'' then
           (case pop_to_lparen output operator_stack of
              (output', stack') \<Rightarrow>
                (if stack' \<noteq> [] \<and> hd stack' = ''('' then (output', tl stack')
                 else (output', stack')))
         else
           (case pop_higher p output operator_stack of
              (output', stack') \<Rightarrow> (output', token # stack')))"

definition to_rpn :: "string list \<Rightarrow> string list" where
  "to_rpn tokens = (case foldl to_rpn_step ([], []) tokens of
                      (output, operator_stack) \<Rightarrow> output @ operator_stack)"

text \<open>
  \<open>_evaluate_rpn\<close> raises \<open>ValueError\<close> at three places; each is a constructor. The
  specification calls all three \<open>MALFORMED_QUERY\<close>.
\<close>

datatype query_error =
    Consulta_AND_mal_formada
  | Consulta_OR_mal_formada
  | Consulta_Booleana_invalida

definition doc_ids_of :: "TrieNode \<Rightarrow> string \<Rightarrow> int set" where
  "doc_ids_of trie token = fst ` set (find_trie trie token)"

fun eval_loop :: "TrieNode \<Rightarrow> int set list \<Rightarrow> string list \<Rightarrow> query_error + int set list" where
  "eval_loop trie operand_stack [] = Inr operand_stack"
| "eval_loop trie operand_stack (token # rest) =
     (if OP_PRECEDENCE token = None then
        eval_loop trie (doc_ids_of trie token # operand_stack) rest
      else if token = ''AND'' then
        (case operand_stack of
           set2 # set1 # stack' \<Rightarrow> eval_loop trie ((set1 \<inter> set2) # stack') rest
         | _ \<Rightarrow> Inl Consulta_AND_mal_formada)
      else if token = ''OR'' then
        (case operand_stack of
           set2 # set1 # stack' \<Rightarrow> eval_loop trie ((set1 \<union> set2) # stack') rest
         | _ \<Rightarrow> Inl Consulta_OR_mal_formada)
      else eval_loop trie operand_stack rest)"

definition evaluate_rpn :: "TrieNode \<Rightarrow> string list \<Rightarrow> query_error + int set" where
  "evaluate_rpn trie rpn_tokens =
     (case eval_loop trie [] rpn_tokens of
        Inl e \<Rightarrow> Inl e
      | Inr operand_stack \<Rightarrow>
          (if length operand_stack \<noteq> 1 then Inl Consulta_Booleana_invalida
           else Inr (hd operand_stack)))"

section \<open>Ranking (RI.py)\<close>

text \<open>
  The statistics table maps a term to its \<open>mu\<close> and \<open>sigma\<close>. Python floats are modelled
  by real numbers: the claims about the ranking concern the case distinction and the
  order of the result, not rounding.
\<close>

record TermStats =
  mu :: real
  sigma :: real

record InformationRetriever =
  trie :: TrieNode
  global_stats :: "string \<rightharpoonup> TermStats"
  is_ready :: bool

definition calculate_z_score :: "InformationRetriever \<Rightarrow> int \<Rightarrow> string \<Rightarrow> real" where
  "calculate_z_score self tf term =
     (case global_stats self term of
        None \<Rightarrow> 0
      | Some stats \<Rightarrow>
          if sigma stats \<le> 0 then (if real_of_int tf > mu stats then 1 else 0)
          else (real_of_int tf - mu stats) / sigma stats)"

text \<open>\<open>next((t for d, t in index_list if d == doc_id), 0)\<close>\<close>

definition tf_of :: "(int \<times> int) list \<Rightarrow> int \<Rightarrow> int" where
  "tf_of index_list doc_id =
     (case filter (\<lambda>(d, t). d = doc_id) index_list of [] \<Rightarrow> 0 | (d, t) # _ \<Rightarrow> t)"

text \<open>The inner loop over the query terms: running sum and counter.\<close>

fun z_loop :: "InformationRetriever \<Rightarrow> int \<Rightarrow> string list \<Rightarrow> real \<times> nat \<Rightarrow> real \<times> nat" where
  "z_loop self doc_id [] acc = acc"
| "z_loop self doc_id (term # terms) (total_z_score, term_count) =
     (let tf = tf_of (find_trie (trie self) term) doc_id in
      if tf > 0 then
        z_loop self doc_id terms (total_z_score + calculate_z_score self tf term, term_count + 1)
      else z_loop self doc_id terms (total_z_score, term_count))"

text \<open>
  \<open>_rank_results\<close>. Its two arguments are Python sets; the lists \<open>doc_ids\<close> and
  \<open>query_terms\<close> are these sets in the order in which the interpreter iterates them.
  \<open>list.sort(key, reverse=True)\<close> is stable: it orders by descending key and keeps
  elements of equal key in their original order, which is \<open>sort_key\<close> on the negated key.
\<close>

definition scored_docs :: "InformationRetriever \<Rightarrow> int list \<Rightarrow> string list \<Rightarrow> (real \<times> int) list" where
  "scored_docs self doc_ids query_terms =
     concat (map (\<lambda>doc_id.
        case z_loop self doc_id query_terms (0, 0) of
          (total_z_score, term_count) \<Rightarrow>
            if term_count > 0 then [(total_z_score / real term_count, doc_id)] else [])
        doc_ids)"

definition rank_results :: "InformationRetriever \<Rightarrow> int list \<Rightarrow> string list \<Rightarrow> int list" where
  "rank_results self doc_ids query_terms =
     map snd (sort_key (\<lambda>x. - fst x) (scored_docs self doc_ids query_terms))"

text \<open>
  \<open>search\<close>. The parameters \<open>iter_docs\<close> and \<open>iter_terms\<close> stand for the interpreter's
  iteration order of a set of document ids and of a set of terms. The \<open>ValueError\<close> of
  the evaluator is caught: \<open>search\<close> prints a message and returns the empty list.
\<close>

definition search ::
  "(int set \<Rightarrow> int list) \<Rightarrow> (string set \<Rightarrow> string list) \<Rightarrow> InformationRetriever \<Rightarrow> string \<Rightarrow> int list" where
  "search iter_docs iter_terms self query =
     (if \<not> is_ready self then []
      else
        let tokens = tokenize_query query;
            query_terms = {t \<in> set tokens. OP_PRECEDENCE t = None};
            rpn_tokens = to_rpn tokens
        in case evaluate_rpn (trie self) rpn_tokens of
             Inl e \<Rightarrow> []
           | Inr matching_doc_ids \<Rightarrow>
               if matching_doc_ids = {} then []
               else rank_results self (iter_docs matching_doc_ids) (iter_terms query_terms))"

section \<open>Persistence (compact_trie.py)\<close>





















section \<open>The properties claimed\<close>



text \<open>
  The structural invariants of the specification, for the node \<open>n\<close> and everything
  below it: no node but the root has an empty label, every node but the root that is
  not terminal has at least two children, and the labels of the children of one node
  start with pairwise distinct characters (\<open>take 1\<close> of a label is its first character).
\<close>

fun node_invariants :: "bool \<Rightarrow> TrieNode \<Rightarrow> bool" where
  "node_invariants is_root (TrieNode l cs t ix) =
     ((is_root \<or> l \<noteq> []) \<and> (is_root \<or> t \<or> 2 \<le> length cs) \<and>
      distinct (map (\<lambda>kc. take 1 (label (snd kc))) cs) \<and>
      (\<forall>kc \<in> set cs. node_invariants False (snd kc)))"

definition trie_invariants :: "TrieNode \<Rightarrow> bool" where
  "trie_invariants t = node_invariants True t"


section \<open>Notions used in the proofs\<close>

definition payload :: "TrieNode \<Rightarrow> (int \<times> int) list" where
  "payload n = (if is_terminal n then inverted_index n else [])"

text \<open>
  Every child is stored under the first character of its non-empty label, keys are
  distinct, and a child that is not terminal has at least two children and an empty
  inverted index. The predicate constrains the children of a node, so the root itself
  is exempt.
\<close>

definition child_ok :: "char \<times> TrieNode \<Rightarrow> bool" where
  "child_ok kc = (label (snd kc) \<noteq> [] \<and> fst kc = hd (label (snd kc)) \<and>
     (is_terminal (snd kc) \<or> (2 \<le> length (children (snd kc)) \<and> inverted_index (snd kc) = [])))"

fun well_formed :: "TrieNode \<Rightarrow> bool" where
  "well_formed (TrieNode l cs t ix) =
     (distinct (map fst cs) \<and> (\<forall>kc \<in> set cs. child_ok kc \<and> well_formed (snd kc)))"

declare well_formed.simps [simp del]

definition via_child :: "TrieNode \<Rightarrow> string \<Rightarrow> (int \<times> int) list" where
  "via_child ch w =
     (if label ch = w then payload ch
      else if prefix (label ch) w then find_trie ch (drop (length (label ch)) w)
      else [])"



text \<open>The trie a load of the serialized trie gives: the same nodes, children in key order.\<close>

function sorted_copy :: "TrieNode \<Rightarrow> TrieNode" where
  "sorted_copy n =
     TrieNode (label n) (map (\<lambda>kc. (fst kc, sorted_copy (snd kc))) (sort_key fst (children n)))
       (is_terminal n) (inverted_index n)"
  by pat_completeness auto

termination
proof (relation "measure size", goal_cases)
  case 1
  show ?case by simp
next
  case (2 n kc)
  obtain k ch where kc: "kc = (k, ch)" by (cases kc)
  with 2 have "(k, ch) \<in> set (children n)" by simp
  then have "size ch < size n"
    by (cases n) (auto dest!: size_list_estimation'
        [where f = "size_prod (\<lambda>_. 0) size" and y = "size ch"])
  with kc show ?case by simp
qed

declare sorted_copy.simps [simp del]





section \<open>Concrete indexes\<close>

definition example_trie :: TrieNode where
  "example_trie = TrieNode []
     [(CHR ''a'', TrieNode ''a'' [] True [(1, 1), (2, 2), (3, 1)]),
      (CHR ''b'', TrieNode ''b'' [] True [(2, 1), (3, 1), (4, 2)]),
      (CHR ''c'', TrieNode ''c'' [] True [(3, 4), (5, 1)])]
     False []"

definition example_ir :: InformationRetriever where
  "example_ir = \<lparr>trie = example_trie,
     global_stats = [''a'' \<mapsto> \<lparr>mu = 4 / 3, sigma = 1 / 2\<rparr>, ''b'' \<mapsto> \<lparr>mu = 1, sigma = 0\<rparr>],
     is_ready = True\<rparr>"


text \<open>
  The order in which CPython iterates a set of at most four non-negative machine-size
  integers with pairwise distinct residues modulo 8: the hash of such an integer is the
  integer, the table has eight slots, the slot is the hash modulo 8, and iteration
  goes through the slots in ascending order. The set \<open>{1, 8}\<close> is iterated as 8, 1.
\<close>

definition slot_order :: "int set \<Rightarrow> int list" where
  "slot_order S = sort_key (\<lambda>d. d mod 8) (sorted_list_of_set S)"

text \<open>The trie of the first scenario of the specification: \<open>carro\<close>, then \<open>carga\<close>.\<close>

definition split_trie :: TrieNode where
  "split_trie = TrieNode []
     [(CHR ''c'', TrieNode ''car''
        [(CHR ''r'', TrieNode ''ro'' [] True [(1, 3)]),
         (CHR ''g'', TrieNode ''ga'' [] True [(2, 1)])] False [])]
     False []"

section \<open>Facts about the query pipeline\<close>

lemma example_trie_built:
  "insert_all empty_trie
     [(''a'', 1, 1), (''b'', 2, 1), (''a'', 2, 2), (''b'', 3, 1), (''a'', 3, 1), (''c'', 3, 4),
      (''b'', 4, 2), (''c'', 5, 1)] = Some example_trie"
  by code_simp

lemma op_precedence_simps:
  "OP_PRECEDENCE ''a'' = None" "OP_PRECEDENCE ''b'' = None" "OP_PRECEDENCE ''c'' = None"
  "OP_PRECEDENCE ''AND'' = Some 2" "OP_PRECEDENCE ''OR'' = Some 1"
  "OP_PRECEDENCE ''('' = Some 0" "OP_PRECEDENCE '')'' = Some 0"
  by (simp_all add: OP_PRECEDENCE_def)

lemma eval_loop_append:
  "eval_loop t st (xs @ ys) =
     (case eval_loop t st xs of Inl e \<Rightarrow> Inl e | Inr st' \<Rightarrow> eval_loop t st' ys)"
  by (induction t st xs rule: eval_loop.induct) (auto split: list.splits)

lemma eval_loop_underflow:
  assumes "length st < 2" "op = ''AND'' \<or> op = ''OR''"
  shows "\<exists>e. eval_loop t st (op # post) = Inl e"
proof -
  from assms(1) have "st = [] \<or> (\<exists>x. st = [x])"
    by (cases st) (auto simp: length_Suc_conv)
  with assms(2) show ?thesis
    by (auto simp: op_precedence_simps)
qed

lemma search_of_error:
  "evaluate_rpn (trie self) (to_rpn (tokenize_query q)) = Inl e \<Longrightarrow>
   search iter_docs iter_terms self q = []"
  by (simp add: search_def Let_def)







section \<open>Claims about the query pipeline\<close>







text \<open>
  Claim C6, as amended. When the evaluator reaches \<open>AND\<close> or \<open>OR\<close> with fewer than two
  operand sets on the stack, \<open>_evaluate_rpn\<close> fails; \<open>search\<close> catches the failure and
  returns the empty list, the value it also returns for a query without matches.
\<close>

theorem underflow_is_caught_by_search:
  assumes "eval_loop t [] pre = Inr st" "length st < 2" "op = ''AND'' \<or> op = ''OR''"
  shows "(\<exists>e. evaluate_rpn t (pre @ op # post) = Inl e) \<and>
    (to_rpn (tokenize_query query) = pre @ op # post \<and> trie self = t \<longrightarrow>
       search iter_docs iter_terms self query = [])"
proof -
  from eval_loop_underflow [OF assms(2,3)] obtain e where "eval_loop t st (op # post) = Inl e"
    by blast
  with assms(1) have e: "evaluate_rpn t (pre @ op # post) = Inl e"
    by (simp add: evaluate_rpn_def eval_loop_append)
  then show ?thesis
    by (auto intro: search_of_error)
qed

text \<open>The query \<open>a AND\<close> meets the hypotheses of the amended C6.\<close>

theorem underflow_is_caught_by_search_witness:
  "eval_loop example_trie [] [''a''] = Inr [{1, 2, 3}] \<and> length [{1, 2, 3 :: int}] < 2 \<and>
   to_rpn (tokenize_query ''a AND'') = [''a''] @ ''AND'' # [] \<and>
   (\<exists>e. evaluate_rpn example_trie ([''a''] @ ''AND'' # []) = Inl e) \<and>
   search slot_order sorted_list_of_set example_ir ''a AND'' = []"
proof -
  have 1: "eval_loop example_trie [] [''a''] = Inr [{1, 2, 3}]" by code_simp
  have 2: "length [{1, 2, 3 :: int}] < 2" by simp
  have 3: "to_rpn (tokenize_query ''a AND'') = [''a''] @ ''AND'' # []" by code_simp
  have 4: "trie example_ir = example_trie" by (simp add: example_ir_def)
  from underflow_is_caught_by_search [OF 1 2, of "''AND''" "[]" "''a AND''" example_ir
      slot_order sorted_list_of_set] 1 2 3 4
  show ?thesis by simp
qed

text \<open>
  Claim C6 as stated fails: for the query \<open>a AND\<close> the evaluator fails, and the value
  \<open>search\<close> returns to its caller is the empty list, the same value as for the
  well-formed query \<open>zzz\<close>, which matches nothing; no error reaches the caller.
\<close>

theorem underflow_counterexample:
  "evaluate_rpn example_trie (to_rpn (tokenize_query ''a AND'')) = Inl Consulta_AND_mal_formada \<and>
   search slot_order sorted_list_of_set example_ir ''a AND'' = [] \<and>
   evaluate_rpn example_trie (to_rpn (tokenize_query ''zzz'')) = Inr {} \<and>
   search slot_order sorted_list_of_set example_ir ''zzz'' = []"
  by code_simp




section \<open>Claims about the ranking\<close>







section \<open>Facts about the trie\<close>

subsection \<open>The mismatch point\<close>

lemma fmp_loop_props:
  "i \<le> min (length w) (length l) \<Longrightarrow> take i w = take i l \<Longrightarrow>
   fmp_loop w l i \<le> length w \<and> fmp_loop w l i \<le> length l \<and>
   take (fmp_loop w l i) w = take (fmp_loop w l i) l \<and>
   (fmp_loop w l i < length w \<and> fmp_loop w l i < length l \<longrightarrow>
      w ! fmp_loop w l i \<noteq> l ! fmp_loop w l i)"
proof (induction w l i rule: fmp_loop.induct)
  case (1 word lbl i)
  show ?case
  proof (cases "i < min (length word) (length lbl) \<and> word ! i = lbl ! i")
    case True
    then have "take (i + 1) word = take (i + 1) lbl"
      using "1.prems"(2) by (simp add: take_Suc_conv_app_nth)
    with True "1.IH" show ?thesis
      by (subst (1 2 3 4 5 6 7 8) fmp_loop.simps) simp
  next
    case False
    with "1.prems" show ?thesis
      by (subst (1 2 3 4 5 6 7 8) fmp_loop.simps) auto
  qed
qed

lemma fmp_props:
  "find_mismatch_point w l \<le> length w"
  "find_mismatch_point w l \<le> length l"
  "take (find_mismatch_point w l) w = take (find_mismatch_point w l) l"
  "find_mismatch_point w l < length w \<Longrightarrow> find_mismatch_point w l < length l \<Longrightarrow>
     w ! find_mismatch_point w l \<noteq> l ! find_mismatch_point w l"
  using fmp_loop_props [of 0 w l] by (simp_all add: find_mismatch_point_def)

lemma fmp_eq_length_word: "find_mismatch_point w l = length w \<longleftrightarrow> prefix w l"
proof
  assume "find_mismatch_point w l = length w"
  with fmp_props(3) [of w l] have "w = take (length w) l" by simp
  then show "prefix w l" by (metis take_is_prefix)
next
  assume "prefix w l"
  then obtain r where l: "l = w @ r" by (auto simp: prefix_def)
  show "find_mismatch_point w l = length w"
  proof (rule ccontr)
    assume "find_mismatch_point w l \<noteq> length w"
    with fmp_props(1) [of w l] have lt: "find_mismatch_point w l < length w" by simp
    with fmp_props(4) [of w l] l show False by (simp add: nth_append)
  qed
qed

lemma fmp_eq_length_label: "find_mismatch_point w l = length l \<longleftrightarrow> prefix l w"
proof
  assume "find_mismatch_point w l = length l"
  with fmp_props(3) [of w l] have "l = take (length l) w" by simp
  then show "prefix l w" by (metis take_is_prefix)
next
  assume "prefix l w"
  then obtain r where w: "w = l @ r" by (auto simp: prefix_def)
  show "find_mismatch_point w l = length l"
  proof (rule ccontr)
    assume "find_mismatch_point w l \<noteq> length l"
    with fmp_props(2) [of w l] have lt: "find_mismatch_point w l < length l" by simp
    with fmp_props(4) [of w l] w show False by (simp add: nth_append)
  qed
qed

text \<open>Splitting both strings at the mismatch point.\<close>

lemma fmp_split:
  "\<exists>p r1 r2. w = p @ r1 \<and> l = p @ r2 \<and> length p = find_mismatch_point w l \<and>
     (r1 \<noteq> [] \<and> r2 \<noteq> [] \<longrightarrow> hd r1 \<noteq> hd r2)"
proof -
  let ?m = "find_mismatch_point w l"
  have w: "w = take ?m w @ drop ?m w" by simp
  have l: "l = take ?m w @ drop ?m l" by (simp add: fmp_props(3))
  have len: "length (take ?m w) = ?m" using fmp_props(1) [of w l] by simp
  have "drop ?m w \<noteq> [] \<and> drop ?m l \<noteq> [] \<longrightarrow> hd (drop ?m w) \<noteq> hd (drop ?m l)"
    using fmp_props(4) [of w l] by (auto simp: hd_drop_conv_nth)
  with w l len show ?thesis by blast
qed

subsection \<open>One step of \<open>find\<close> and of \<open>insert\<close>\<close>

lemma find_trie_Nil: "find_trie n [] = payload n"
  by (subst find_trie.simps) (simp add: payload_def)

lemma find_trie_unfold:
  "w \<noteq> [] \<Longrightarrow> find_trie n w =
     (case map_of (children n) (hd w) of
        None \<Rightarrow> []
      | Some ch \<Rightarrow>
          if label ch = w then payload ch
          else if prefix (label ch) w then find_trie ch (drop (length (label ch)) w)
          else [])"
  apply (subst find_trie.simps)
  apply (simp add: Let_def payload_def fmp_eq_length_word fmp_eq_length_label
      split: option.splits)
  apply (auto dest: prefix_order.antisym simp: fmp_eq_length_label [THEN iffD2])
  done

lemma insert_trie_cases [consumes 1, case_names NoChild A B C D Stuck]:
  assumes "w \<noteq> []"
  obtains
    (NoChild) "map_of (children n) (hd w) = None"
      "insert_trie n w d f = Some (set_child n (hd w) (new_leaf w d f))"
  | (A) ch where "map_of (children n) (hd w) = Some ch" "label ch = w"
      "insert_trie n w d f = Some (set_child n (hd w)
         (TrieNode w (children ch) True (inverted_index ch @ [(d, f)])))"
  | (B) ch r where "map_of (children n) (hd w) = Some ch" "label ch = w @ r" "r \<noteq> []"
      "insert_trie n w d f = Some (set_child n (hd w)
         (TrieNode w [(hd r, TrieNode r (children ch) (is_terminal ch) (inverted_index ch))]
            True [(d, f)]))"
  | (C) ch r where "map_of (children n) (hd w) = Some ch" "w = label ch @ r" "r \<noteq> []"
      "insert_trie n w d f =
         (case insert_trie ch r d f of None \<Rightarrow> None
          | Some ch' \<Rightarrow> Some (set_child n (hd w) ch'))"
  | (D) ch p r1 r2 where "map_of (children n) (hd w) = Some ch" "label ch = p @ r1"
      "w = p @ r2" "p \<noteq> []" "r1 \<noteq> []" "r2 \<noteq> []" "hd r1 \<noteq> hd r2"
      "insert_trie n w d f = Some (set_child n (hd w)
         (TrieNode p [(hd r1, TrieNode r1 (children ch) (is_terminal ch) (inverted_index ch)),
                      (hd r2, new_leaf r2 d f)] False []))"
  | (Stuck) ch where "map_of (children n) (hd w) = Some ch" "label ch \<noteq> []"
      "hd (label ch) \<noteq> hd w" "insert_trie n w d f = None"
proof (cases "map_of (children n) (hd w)")
  case None
  with assms have "insert_trie n w d f = Some (set_child n (hd w) (new_leaf w d f))"
    by (subst insert_trie.simps) simp
  with None show ?thesis by (rule NoChild)
next
  case (Some ch)
  let ?m = "find_mismatch_point w (label ch)"
  obtain p r2 r1 where split: "w = p @ r2" "label ch = p @ r1" "length p = ?m"
    "r2 \<noteq> [] \<and> r1 \<noteq> [] \<longrightarrow> hd r2 \<noteq> hd r1"
    using fmp_split [of w "label ch"] by blast
  have mw: "?m = length w \<longleftrightarrow> r2 = []" using split by auto
  have ml: "?m = length (label ch) \<longleftrightarrow> r1 = []" using split by auto
  have dw: "drop ?m w = r2" using split by (metis append_eq_conv_conj)
  have dl: "drop ?m (label ch) = r1" using split by (metis append_eq_conv_conj)
  have tl: "take ?m (label ch) = p" using split by (metis append_eq_conv_conj)
  consider (a) "r2 = []" "r1 = []" | (b) "r2 = []" "r1 \<noteq> []" | (c) "r2 \<noteq> []" "r1 = []"
    | (d) "r2 \<noteq> []" "r1 \<noteq> []" "p \<noteq> []" | (s) "r2 \<noteq> []" "r1 \<noteq> []" "p = []"
    by blast
  then show ?thesis
  proof cases
    case a
    with split have "label ch = w" by simp
    moreover from assms Some a mw ml this have "insert_trie n w d f = Some (set_child n (hd w)
         (TrieNode w (children ch) True (inverted_index ch @ [(d, f)])))"
      by (subst insert_trie.simps) (simp add: Let_def)
    ultimately show ?thesis using Some by (intro A)
  next
    case b
    with split have l: "label ch = w @ r1" by simp
    from assms Some b mw ml dl have "insert_trie n w d f = Some (set_child n (hd w)
         (TrieNode w [(hd r1, TrieNode r1 (children ch) (is_terminal ch) (inverted_index ch))]
            True [(d, f)]))"
      by (subst insert_trie.simps) (simp add: Let_def)
    with Some l b show ?thesis by (intro B)
  next
    case c
    with split have l: "w = label ch @ r2" by simp
    from assms Some c mw ml dw have "insert_trie n w d f =
         (case insert_trie ch r2 d f of None \<Rightarrow> None
          | Some ch' \<Rightarrow> Some (set_child n (hd w) ch'))"
      by (subst insert_trie.simps) (simp add: Let_def)
    with Some l c show ?thesis by (intro C)
  next
    case d
    have "?m = length p" using split(3) by simp
    moreover have "length (label ch) = length p + length r1" using split(2) by simp
    ultimately have pos: "0 < ?m" "?m < length (label ch)" using d by auto
    from d split have ne: "hd r1 \<noteq> hd r2" by auto
    from assms Some d mw ml dw dl tl pos ne have "insert_trie n w d f = Some (set_child n (hd w)
         (TrieNode p [(hd r1, TrieNode r1 (children ch) (is_terminal ch) (inverted_index ch)),
                      (hd r2, new_leaf r2 d f)] False []))"
      by (subst insert_trie.simps) (simp add: Let_def)
    with Some split d ne show ?thesis by (intro D)
  next
    case s
    then have z: "?m = 0" using split by simp
    from s split have 1: "label ch \<noteq> []" "hd (label ch) \<noteq> hd w" by auto
    from assms Some s mw ml z have "insert_trie n w d f = None"
      by (subst insert_trie.simps) (simp add: Let_def)
    with Some 1 show ?thesis by (intro Stuck)
  qed
qed

subsection \<open>Well-formed tries\<close>

lemma size_child:
  "map_of cs c = Some ch \<Longrightarrow> size ch < Suc (size_list (size_prod (\<lambda>_. 0) size) cs)"
  by (induction cs) (auto split: if_splits)

lemma size_member:
  "kc \<in> set cs \<Longrightarrow> size (snd kc) < Suc (size_list (size_prod (\<lambda>_. 0) size) cs)"
  by (induction cs) auto

lemma well_formed_iff:
  "well_formed n \<longleftrightarrow>
     distinct (map fst (children n)) \<and>
     (\<forall>kc \<in> set (children n). child_ok kc \<and> well_formed (snd kc))"
  by (cases n) (simp add: well_formed.simps)

lemma map_of_child_size: "map_of (children n) c = Some ch \<Longrightarrow> size ch < size n"
  by (cases n) (auto dest: size_child)

lemma set_update_subset: "set (AList.update k v al) \<subseteq> insert (k, v) (set al)"
  by (induction al) auto

lemma length_update_ge: "length al \<le> length (AList.update k v al)"
  by (induction al) auto

lemma children_set_child [simp]: "children (set_child n c x) = AList.update c x (children n)"
  and label_set_child [simp]: "label (set_child n c x) = label n"
  and is_terminal_set_child [simp]: "is_terminal (set_child n c x) = is_terminal n"
  and inverted_index_set_child [simp]: "inverted_index (set_child n c x) = inverted_index n"
  by (simp_all add: set_child_def)

lemma well_formed_set_child:
  assumes "well_formed n" "child_ok (c, x)" "well_formed x"
  shows "well_formed (set_child n c x)"
proof -
  from assms(1) [THEN well_formed_iff [THEN iffD1]]
  have d: "distinct (map fst (children n))"
    and a: "\<forall>kc \<in> set (children n). child_ok kc \<and> well_formed (snd kc)"
    by blast+
  have "\<forall>kc \<in> set (AList.update c x (children n)). child_ok kc \<and> well_formed (snd kc)"
    using a assms(2,3) set_update_subset [of c x "children n"] by auto
  with d show ?thesis
    by (subst well_formed_iff) (simp add: distinct_update)
qed

lemma well_formed_child:
  assumes "well_formed n" "map_of (children n) c = Some ch"
  shows "child_ok (c, ch)" "well_formed ch"
proof -
  from assms(2) have "(c, ch) \<in> set (children n)" by (rule map_of_SomeD)
  with assms(1) [THEN well_formed_iff [THEN iffD1]]
  show "child_ok (c, ch)" "well_formed ch"
    by auto
qed

lemma well_formed_relabel:
  "well_formed n \<Longrightarrow> well_formed (TrieNode l (children n) t ix)"
  by (cases n) (simp add: well_formed.simps)

lemma well_formed_leaf: "well_formed (new_leaf w d f)"
  by (simp add: new_leaf_def well_formed.simps)

lemma insert_trie_Nil [simp]: "insert_trie n [] d f = Some n"
  by (subst insert_trie.simps) simp

lemma insert_trie_keeps_fields:
  assumes "insert_trie n w d f = Some n'"
  shows "label n' = label n \<and> is_terminal n' = is_terminal n \<and>
    inverted_index n' = inverted_index n"
proof (cases "w = []")
  case True
  with assms show ?thesis by simp
next
  case False
  then show ?thesis
  proof (cases rule: insert_trie_cases [where n = n and d = d and f = f])
    case (C ch r)
    with assms show ?thesis by (auto split: option.splits)
  qed (use assms in auto)
qed

text \<open>On a well-formed trie every insertion returns, and the result is well formed.\<close>

lemma insert_trie_well_formed:
  "well_formed n \<Longrightarrow>
   \<exists>n'. insert_trie n w d f = Some n' \<and> well_formed n' \<and>
        length (children n) \<le> length (children n')"
proof (induction n arbitrary: w rule: measure_induct_rule [of size])
  case (less n)
  show ?case
  proof (cases "w = []")
    case True
    with less.prems show ?thesis by simp
  next
    case False
    then show ?thesis
    proof (cases rule: insert_trie_cases [where n = n and d = d and f = f])
      case NoChild
      have "child_ok (hd w, new_leaf w d f)"
        using False by (simp add: child_ok_def new_leaf_def)
      with less.prems NoChild show ?thesis
        by (simp add: well_formed_set_child well_formed_leaf length_update_ge)
    next
      case (A ch)
      from less.prems A(1) have ok: "child_ok (hd w, ch)" and wf: "well_formed ch"
        by (rule well_formed_child)+
      let ?x = "TrieNode w (children ch) True (inverted_index ch @ [(d, f)])"
      have "child_ok (hd w, ?x)" using False by (simp add: child_ok_def)
      moreover have "well_formed ?x" using wf by (rule well_formed_relabel)
      ultimately show ?thesis using less.prems A
        by (simp add: well_formed_set_child length_update_ge)
    next
      case (B ch r)
      from less.prems B(1) have ok: "child_ok (hd w, ch)" and wf: "well_formed ch"
        by (rule well_formed_child)+
      let ?y = "TrieNode r (children ch) (is_terminal ch) (inverted_index ch)"
      let ?x = "TrieNode w [(hd r, ?y)] True [(d, f)]"
      have y: "child_ok (hd r, ?y)" "well_formed ?y"
        using ok wf B(3) by (simp_all add: child_ok_def well_formed_relabel)
      have "child_ok (hd w, ?x)" using False by (simp add: child_ok_def)
      moreover have "well_formed ?x" using y by (simp add: well_formed.simps)
      ultimately show ?thesis using less.prems B
        by (simp add: well_formed_set_child length_update_ge)
    next
      case (C ch r)
      from less.prems C(1) have ok: "child_ok (hd w, ch)" and wf: "well_formed ch"
        by (rule well_formed_child)+
      from C(1) have "size ch < size n" by (rule map_of_child_size)
      from less.IH [OF this wf, of r] obtain ch' where
        ch': "insert_trie ch r d f = Some ch'" "well_formed ch'"
          "length (children ch) \<le> length (children ch')"
        by blast
      from insert_trie_keeps_fields [OF ch'(1)] ok ch'(3)
      have "child_ok (hd w, ch')" by (auto simp: child_ok_def)
      with less.prems C ch' show ?thesis
        by (simp add: well_formed_set_child length_update_ge)
    next
      case (D ch p r1 r2)
      from less.prems D(1) have ok: "child_ok (hd w, ch)" and wf: "well_formed ch"
        by (rule well_formed_child)+
      let ?y = "TrieNode r1 (children ch) (is_terminal ch) (inverted_index ch)"
      let ?x = "TrieNode p [(hd r1, ?y), (hd r2, new_leaf r2 d f)] False []"
      have y: "child_ok (hd r1, ?y)" "well_formed ?y"
        using ok wf D(5) by (simp_all add: child_ok_def well_formed_relabel)
      have z: "child_ok (hd r2, new_leaf r2 d f)"
        using D(6) by (simp add: child_ok_def new_leaf_def)
      have "child_ok (hd w, ?x)" using D(3,4) by (simp add: child_ok_def)
      moreover have "well_formed ?x" using y z D(7)
        by (simp add: well_formed.simps well_formed_leaf)
      ultimately show ?thesis using less.prems D
        by (simp add: well_formed_set_child length_update_ge)
    next
      case (Stuck ch)
      from less.prems Stuck(1) have "child_ok (hd w, ch)"
        by (rule well_formed_child)
      with Stuck show ?thesis by (simp add: child_ok_def)
    qed
  qed
qed

subsection \<open>Lookup after insertion\<close>

lemma find_trie_via_child:
  "w \<noteq> [] \<Longrightarrow> find_trie n w =
     (case map_of (children n) (hd w) of None \<Rightarrow> [] | Some ch \<Rightarrow> via_child ch w)"
  by (simp add: find_trie_unfold via_child_def split: option.splits)

lemma find_trie_cong:
  "children a = children b \<Longrightarrow> s \<noteq> [] \<Longrightarrow> find_trie a s = find_trie b s"
  by (simp add: find_trie_via_child)

lemma find_trie_no_children: "s \<noteq> [] \<Longrightarrow> children n = [] \<Longrightarrow> find_trie n s = []"
  by (simp add: find_trie_via_child)

lemma find_set_child:
  "w' \<noteq> [] \<Longrightarrow> find_trie (set_child n c x) w' =
     (if hd w' = c then via_child x w' else find_trie n w')"
  by (simp add: find_trie_via_child update_conv')

lemma drop_prefix_nonempty: "prefix l w \<Longrightarrow> l \<noteq> w \<Longrightarrow> drop (length l) w \<noteq> []"
  by (auto simp: prefix_def)

lemma via_child_leaf:
  "via_child (new_leaf w d f) w' = (if w' = w then [(d, f)] else [])"
proof (cases "prefix w w' \<and> w \<noteq> w'")
  case True
  then have "drop (length w) w' \<noteq> []" by (metis drop_prefix_nonempty)
  then have "find_trie (new_leaf w d f) (drop (length w) w') = []"
    by (rule find_trie_no_children) (simp add: new_leaf_def)
  with True show ?thesis by (auto simp: via_child_def new_leaf_def)
next
  case False
  then show ?thesis by (auto simp: via_child_def new_leaf_def payload_def)
qed

lemma via_child_terminalize:
  assumes "label ch = w" "is_terminal ch \<or> inverted_index ch = []"
  shows "via_child (TrieNode w (children ch) True (inverted_index ch @ [(d, f)])) w' =
     (if w' = w then via_child ch w' @ [(d, f)] else via_child ch w')"
proof (cases "w' = w")
  case True
  with assms show ?thesis by (auto simp: via_child_def payload_def)
next
  case False
  show ?thesis
  proof (cases "prefix w w'")
    case True
    have "drop (length w) w' \<noteq> []"
      by (rule drop_prefix_nonempty [OF True]) (use False in auto)
    then have "find_trie (TrieNode w (children ch) True (inverted_index ch @ [(d, f)]))
        (drop (length w) w') = find_trie ch (drop (length w) w')"
      by (intro find_trie_cong) simp_all
    with False True assms show ?thesis by (auto simp: via_child_def)
  next
    case np: False
    with False assms show ?thesis by (auto simp: via_child_def)
  qed
qed

text \<open>A child whose label \<open>p @ r\<close> is trimmed to \<open>r\<close> answers for \<open>s\<close> what it answered
  for \<open>p @ s\<close>.\<close>

lemma via_child_trimmed:
  assumes "label ch = p @ r" "s \<noteq> []"
  shows "via_child (TrieNode r (children ch) (is_terminal ch) (inverted_index ch)) s =
     via_child ch (p @ s)"
proof -
  let ?y = "TrieNode r (children ch) (is_terminal ch) (inverted_index ch)"
  have pay: "payload ?y = payload ch" by (simp add: payload_def)
  show ?thesis
  proof (cases "r = s")
    case True
    with assms pay show ?thesis by (simp add: via_child_def)
  next
    case False
    show ?thesis
    proof (cases "prefix r s")
      case True
      have ne: "drop (length r) s \<noteq> []"
        by (rule drop_prefix_nonempty [OF True]) (use False in auto)
      then have "find_trie ?y (drop (length r) s) = find_trie ch (drop (length r) s)"
        by (intro find_trie_cong) simp_all
      with False True assms show ?thesis by (simp add: via_child_def)
    next
      case np: False
      with False assms show ?thesis by (simp add: via_child_def)
    qed
  qed
qed

lemma via_child_other_branch:
  assumes "label ch = p @ r" "r \<noteq> []" "s \<noteq> []" "hd s \<noteq> hd r"
  shows "via_child ch (p @ s) = []"
proof -
  from assms have "r \<noteq> s" by auto
  moreover from assms have "\<not> prefix r s" by (auto simp: prefix_def)
  ultimately show ?thesis using assms by (simp add: via_child_def)
qed

lemma via_child_not_below:
  assumes "label ch = p @ r" "\<not> prefix p w'"
  shows "via_child ch w' = []"
proof -
  from assms have "label ch \<noteq> w'" by auto
  moreover from assms have "\<not> prefix (label ch) w'"
    by (metis append_prefixD)
  ultimately show ?thesis by (simp add: via_child_def)
qed

lemma via_child_at_prefix:
  assumes "label ch = p @ r" "r \<noteq> []"
  shows "via_child ch p = []"
  using assms by (simp add: via_child_def)

lemma prefix_cases3:
  obtains (eq) "w' = p" | (below) s where "w' = p @ s" "s \<noteq> []" | (off) "\<not> prefix p w'"
  by (metis append_Nil2 prefix_def)

lemma via_child_below:
  "s \<noteq> [] \<Longrightarrow> label x = p \<Longrightarrow> via_child x (p @ s) = find_trie x s"
  by (simp add: via_child_def)

lemma via_child_split_prefix:
  assumes "label ch = w @ r" "r \<noteq> []"
  shows "via_child (TrieNode w
            [(hd r, TrieNode r (children ch) (is_terminal ch) (inverted_index ch))]
            True [(d, f)]) w' =
         (if w' = w then via_child ch w' @ [(d, f)] else via_child ch w')"
proof (cases w' w rule: prefix_cases3)
  case eq
  with assms show ?thesis
    by (simp add: via_child_at_prefix) (simp add: via_child_def payload_def)
next
  case (below s)
  let ?y = "TrieNode r (children ch) (is_terminal ch) (inverted_index ch)"
  let ?x = "TrieNode w [(hd r, ?y)] True [(d, f)]"
  have "via_child ?x (w @ s) = find_trie ?x s"
    using below(2) by (simp add: via_child_below)
  also have "\<dots> = (if hd s = hd r then via_child ?y s else [])"
    using below(2) by (simp add: find_trie_via_child)
  also have "\<dots> = via_child ch (w @ s)"
    using assms below(2) by (simp add: via_child_trimmed via_child_other_branch)
  finally show ?thesis using below by simp
next
  case off
  then have "w' \<noteq> w" by auto
  with off assms show ?thesis
    by (simp add: via_child_not_below) (simp add: via_child_def)
qed

lemma via_child_split_diverge:
  assumes "label ch = p @ r1" "r1 \<noteq> []" "r2 \<noteq> []" "hd r1 \<noteq> hd r2"
  shows "via_child (TrieNode p
            [(hd r1, TrieNode r1 (children ch) (is_terminal ch) (inverted_index ch)),
             (hd r2, new_leaf r2 d f)] False []) w' =
         (if w' = p @ r2 then via_child ch w' @ [(d, f)] else via_child ch w')"
proof (cases w' p rule: prefix_cases3)
  case eq
  with assms show ?thesis
    by (simp add: via_child_at_prefix) (simp add: via_child_def payload_def)
next
  case (below s)
  let ?y = "TrieNode r1 (children ch) (is_terminal ch) (inverted_index ch)"
  let ?x = "TrieNode p [(hd r1, ?y), (hd r2, new_leaf r2 d f)] False []"
  have 1: "via_child ?x (p @ s) = find_trie ?x s"
    using below(2) by (simp add: via_child_below)
  have 2: "find_trie ?x s =
      (if hd s = hd r1 then via_child ?y s
       else if hd s = hd r2 then via_child (new_leaf r2 d f) s else [])"
    using below(2) by (simp add: find_trie_via_child)
  show ?thesis
  proof (cases "hd s = hd r1")
    case True
    with assms have "s \<noteq> r2" by auto
    with True 1 2 assms below show ?thesis by (simp add: via_child_trimmed)
  next
    case False
    with assms below(2) have old: "via_child ch (p @ s) = []"
      by (simp add: via_child_other_branch)
    have "s \<noteq> r2" if "hd s \<noteq> hd r2" using that by auto
    with False 1 2 old below show ?thesis by (auto simp: via_child_leaf)
  qed
next
  case off
  then have "w' \<noteq> p @ r2" "w' \<noteq> p" by auto
  with off assms show ?thesis
    by (simp add: via_child_not_below) (simp add: via_child_def)
qed

lemma via_child_descend:
  assumes "label ch' = label ch" "payload ch' = payload ch" "r \<noteq> []"
    and "\<And>s. s \<noteq> [] \<Longrightarrow>
      find_trie ch' s = (if s = r then find_trie ch s @ [(d, f)] else find_trie ch s)"
  shows "via_child ch' w' =
    (if w' = label ch @ r then via_child ch w' @ [(d, f)] else via_child ch w')"
proof (cases w' "label ch" rule: prefix_cases3)
  case eq
  with assms(1,2,3) show ?thesis by (simp add: via_child_def)
next
  case (below s)
  with assms(1) have "via_child ch' w' = find_trie ch' s" "via_child ch w' = find_trie ch s"
    by (simp_all add: via_child_below)
  with assms(4) [OF below(2)] below show ?thesis by auto
next
  case off
  then have "w' \<noteq> label ch @ r" "w' \<noteq> label ch" by auto
  with off assms(1) show ?thesis by (simp add: via_child_def)
qed

lemma find_set_child_hd:
  assumes "w \<noteq> []" "w' \<noteq> []"
    and "hd w' = hd w \<Longrightarrow>
      via_child x w' = (if w' = w then find_trie n w' @ [(d, f)] else find_trie n w')"
  shows "find_trie (set_child n (hd w) x) w' =
    (if w' = w then find_trie n w' @ [(d, f)] else find_trie n w')"
  using assms by (auto simp: find_set_child)

lemma find_trie_at_child:
  "w' \<noteq> [] \<Longrightarrow> map_of (children n) (hd w') = Some ch \<Longrightarrow> find_trie n w' = via_child ch w'"
  "w' \<noteq> [] \<Longrightarrow> map_of (children n) (hd w') = None \<Longrightarrow> find_trie n w' = []"
  by (simp_all add: find_trie_via_child)

text \<open>An insertion appends its pair to the list of its own term and changes the list of
  no other term.\<close>

lemma find_after_insert:
  "well_formed n \<Longrightarrow> insert_trie n w d f = Some n' \<Longrightarrow> w' \<noteq> [] \<Longrightarrow>
   find_trie n' w' = (if w' = w then find_trie n w' @ [(d, f)] else find_trie n w')"
proof (induction n arbitrary: w w' n' rule: measure_induct_rule [of size])
  case (less n)
  note wf = less.prems(1) and ins = less.prems(2) and ne = less.prems(3)
  show ?case
  proof (cases "w = []")
    case True
    with ins ne show ?thesis by auto
  next
    case False
    then show ?thesis
    proof (cases rule: insert_trie_cases [where n = n and d = d and f = f])
      case NoChild
      from NoChild(2) ins have n': "n' = set_child n (hd w) (new_leaf w d f)" by simp
      show ?thesis unfolding n'
      proof (rule find_set_child_hd [OF False ne])
        assume "hd w' = hd w"
        with NoChild(1) ne have "find_trie n w' = []" by (simp add: find_trie_at_child)
        then show "via_child (new_leaf w d f) w' =
            (if w' = w then find_trie n w' @ [(d, f)] else find_trie n w')"
          by (auto simp: via_child_leaf)
      qed
    next
      case (A ch)
      from wf A(1) have ok: "child_ok (hd w, ch)" by (rule well_formed_child)
      from A(3) ins have n': "n' = set_child n (hd w)
          (TrieNode w (children ch) True (inverted_index ch @ [(d, f)]))" by simp
      show ?thesis unfolding n'
      proof (rule find_set_child_hd [OF False ne])
        assume "hd w' = hd w"
        with A(1) ne have "find_trie n w' = via_child ch w'" by (simp add: find_trie_at_child)
        moreover from ok have "is_terminal ch \<or> inverted_index ch = []"
          by (auto simp: child_ok_def)
        ultimately show "via_child (TrieNode w (children ch) True (inverted_index ch @ [(d, f)])) w' =
            (if w' = w then find_trie n w' @ [(d, f)] else find_trie n w')"
          using A(2) by (auto simp: via_child_terminalize)
      qed
    next
      case (B ch r)
      from B(4) ins have n': "n' = set_child n (hd w)
          (TrieNode w [(hd r, TrieNode r (children ch) (is_terminal ch) (inverted_index ch))]
            True [(d, f)])" by simp
      show ?thesis unfolding n'
      proof (rule find_set_child_hd [OF False ne])
        assume "hd w' = hd w"
        with B(1) ne have "find_trie n w' = via_child ch w'" by (simp add: find_trie_at_child)
        then show "via_child (TrieNode w
            [(hd r, TrieNode r (children ch) (is_terminal ch) (inverted_index ch))]
            True [(d, f)]) w' =
            (if w' = w then find_trie n w' @ [(d, f)] else find_trie n w')"
          using B(2,3) by (auto simp: via_child_split_prefix)
      qed
    next
      case (C ch r)
      from wf C(1) have wfc: "well_formed ch" by (rule well_formed_child)
      from C(1) have sz: "size ch < size n" by (rule map_of_child_size)
      from C(4) ins obtain ch' where ch': "insert_trie ch r d f = Some ch'"
        and n': "n' = set_child n (hd w) ch'"
        by (auto split: option.splits)
      from insert_trie_keeps_fields [OF ch']
      have same: "label ch' = label ch" "payload ch' = payload ch"
        by (simp_all add: payload_def)
      show ?thesis unfolding n'
      proof (rule find_set_child_hd [OF False ne])
        assume "hd w' = hd w"
        with C(1) ne have "find_trie n w' = via_child ch w'" by (simp add: find_trie_at_child)
        moreover have "via_child ch' w' =
            (if w' = label ch @ r then via_child ch w' @ [(d, f)] else via_child ch w')"
          using same C(3) less.IH [OF sz wfc ch'] by (rule via_child_descend)
        ultimately show "via_child ch' w' =
            (if w' = w then find_trie n w' @ [(d, f)] else find_trie n w')"
          using C(2) by auto
      qed
    next
      case (D ch p r1 r2)
      from D(8) ins have n': "n' = set_child n (hd w)
          (TrieNode p [(hd r1, TrieNode r1 (children ch) (is_terminal ch) (inverted_index ch)),
                       (hd r2, new_leaf r2 d f)] False [])" by simp
      show ?thesis unfolding n'
      proof (rule find_set_child_hd [OF False ne])
        assume "hd w' = hd w"
        with D(1) ne have "find_trie n w' = via_child ch w'" by (simp add: find_trie_at_child)
        then show "via_child (TrieNode p
            [(hd r1, TrieNode r1 (children ch) (is_terminal ch) (inverted_index ch)),
             (hd r2, new_leaf r2 d f)] False []) w' =
            (if w' = w then find_trie n w' @ [(d, f)] else find_trie n w')"
          using D(2,3,5,6,7) by (auto simp: via_child_split_diverge)
      qed
    next
      case (Stuck ch)
      with ins show ?thesis by simp
    qed
  qed
qed

subsection \<open>Sequences of insertions\<close>

lemma well_formed_empty: "well_formed empty_trie"
  by (simp add: empty_trie_def well_formed.simps)

lemma insert_all_well_formed:
  "well_formed t \<Longrightarrow> \<exists>t'. insert_all t ops = Some t' \<and> well_formed t'"
proof (induction ops arbitrary: t)
  case Nil
  then show ?case by simp
next
  case (Cons op ops)
  obtain w d f where op: "op = (w, d, f)" by (cases op)
  from insert_trie_well_formed [OF Cons.prems, of w d f] obtain t1 where
    t1: "insert_trie t w d f = Some t1" "well_formed t1" by blast
  from Cons.IH [OF t1(2)] t1(1) op show ?case by simp
qed

lemma find_after_insert_all:
  "well_formed t \<Longrightarrow> insert_all t ops = Some t' \<Longrightarrow> w \<noteq> [] \<Longrightarrow>
   find_trie t' w = find_trie t w @ map snd (filter (\<lambda>op. fst op = w) ops)"
proof (induction ops arbitrary: t)
  case Nil
  then show ?case by simp
next
  case (Cons op ops)
  obtain v d f where op: "op = (v, d, f)" by (cases op)
  from insert_trie_well_formed [OF Cons.prems(1), of v d f] obtain t1 where
    t1: "insert_trie t v d f = Some t1" "well_formed t1" by blast
  with Cons.prems(2) op have rest: "insert_all t1 ops = Some t'" by simp
  have "find_trie t1 w = (if w = v then find_trie t w @ [(d, f)] else find_trie t w)"
    using Cons.prems(1) t1(1) Cons.prems(3) by (rule find_after_insert)
  with Cons.IH [OF t1(2) rest Cons.prems(3)] op show ?case by auto
qed

lemma find_trie_empty: "find_trie empty_trie w = []"
proof (cases "w = []")
  case True
  then show ?thesis by (simp add: find_trie_Nil payload_def empty_trie_def)
next
  case False
  then show ?thesis by (simp add: find_trie_no_children empty_trie_def)
qed

lemma insert_all_keeps_fields:
  "insert_all t ops = Some t' \<Longrightarrow>
   label t' = label t \<and> is_terminal t' = is_terminal t \<and> inverted_index t' = inverted_index t"
proof (induction ops arbitrary: t)
  case Nil
  then show ?case by simp
next
  case (Cons op ops)
  obtain v d f where op: "op = (v, d, f)" by (cases op)
  from Cons.prems op obtain t1 where t1: "insert_trie t v d f = Some t1"
    and rest: "insert_all t1 ops = Some t'"
    by (auto split: option.splits)
  from Cons.IH [OF rest] insert_trie_keeps_fields [OF t1] show ?case by simp
qed

lemma first_chars_distinct:
  assumes "distinct (map fst cs)" "\<forall>kc \<in> set cs. child_ok kc"
  shows "distinct (map (\<lambda>kc. take 1 (label (snd kc))) cs)"
proof -
  have eq: "map (\<lambda>kc. take 1 (label (snd kc))) cs = map (\<lambda>kc. [fst kc]) cs"
    using assms(2) by (intro map_cong) (auto simp: child_ok_def take_Suc)
  have "distinct (map (\<lambda>kc. [fst kc]) cs)"
    using assms(1) by (induction cs) auto
  then show ?thesis by (simp only: eq)
qed

lemma node_invariants_iff:
  "node_invariants r n \<longleftrightarrow>
     (r \<or> label n \<noteq> []) \<and> (r \<or> is_terminal n \<or> 2 \<le> length (children n)) \<and>
     distinct (map (\<lambda>kc. take 1 (label (snd kc))) (children n)) \<and>
     (\<forall>kc \<in> set (children n). node_invariants False (snd kc))"
  by (cases n) simp

lemma well_formed_node_invariants:
  "well_formed n \<Longrightarrow> r \<or> child_ok (k, n) \<Longrightarrow> node_invariants r n"
proof (induction n arbitrary: r k rule: measure_induct_rule [of size])
  case (less n)
  from less.prems(1) [THEN well_formed_iff [THEN iffD1]]
  have d: "distinct (map fst (children n))"
    and a: "\<forall>kc \<in> set (children n). child_ok kc \<and> well_formed (snd kc)"
    by blast+
  have "node_invariants False (snd kc)" if "kc \<in> set (children n)" for kc
  proof -
    from that have "size (snd kc) < size n" by (cases n) (auto dest: size_member)
    moreover from a that have "well_formed (snd kc)" "child_ok (fst kc, snd kc)" by auto
    ultimately show ?thesis using less.IH by blast
  qed
  moreover have "distinct (map (\<lambda>kc. take 1 (label (snd kc))) (children n))"
    using d a by (intro first_chars_distinct) auto
  moreover have "r \<or> label n \<noteq> []" "r \<or> is_terminal n \<or> 2 \<le> length (children n)"
    using less.prems(2) by (auto simp: child_ok_def)
  ultimately show ?case by (subst node_invariants_iff) blast
qed

section \<open>Claims about the trie\<close>

lemma split_trie_built:
  "insert_all empty_trie [(''carro'', 1, 3), (''carga'', 2, 1)] = Some split_trie"
  by code_simp

text \<open>
  Claim C3. Every sequence of \<open>insert\<close> calls on an empty trie returns, and afterwards
  \<open>find\<close> of a non-empty term is the list of the pairs inserted under that term, in
  insertion order. So the list of an inserted term contains each of its pairs, the
  list of a term never inserted is empty, and in particular so is the list of a strict
  prefix of an inserted term that was not inserted itself.
\<close>

theorem lookup_after_inserts:
  "\<exists>t. insert_all empty_trie ops = Some t \<and>
     (\<forall>w. w \<noteq> [] \<longrightarrow> find_trie t w = map snd (filter (\<lambda>op. fst op = w) ops)) \<and>
     (\<forall>op \<in> set ops. fst op \<noteq> [] \<longrightarrow> snd op \<in> set (find_trie t (fst op))) \<and>
     (\<forall>w. w \<noteq> [] \<and> w \<notin> fst ` set ops \<longrightarrow> find_trie t w = []) \<and>
     (\<forall>w op. w \<noteq> [] \<and> op \<in> set ops \<and> strict_prefix w (fst op) \<and> w \<notin> fst ` set ops \<longrightarrow>
        find_trie t w = [])"
proof -
  from insert_all_well_formed [OF well_formed_empty, of ops] obtain t where
    t: "insert_all empty_trie ops = Some t" by blast
  have eq: "find_trie t w = map snd (filter (\<lambda>op. fst op = w) ops)" if "w \<noteq> []" for w
    using find_after_insert_all [OF well_formed_empty t that] by (simp add: find_trie_empty)
  have absent: "find_trie t w = []" if "w \<noteq> []" "w \<notin> fst ` set ops" for w
  proof -
    from that(2) have "filter (\<lambda>op. fst op = w) ops = []"
      by (auto simp: filter_empty_conv)
    with eq [OF that(1)] show ?thesis by simp
  qed
  have present: "snd op \<in> set (find_trie t (fst op))" if "op \<in> set ops" "fst op \<noteq> []" for op
    using eq [OF that(2)] that(1) by auto
  from t eq absent present show ?thesis by blast
qed

text \<open>The first scenario of the specification, from C3.\<close>

theorem lookup_after_inserts_witness:
  "insert_all empty_trie [(''carro'', 1, 3), (''carga'', 2, 1)] = Some split_trie \<and>
   find_trie split_trie ''carro'' = [(1, 3)] \<and>
   find_trie split_trie ''carga'' = [(2, 1)] \<and>
   find_trie split_trie ''car'' = []"
proof -
  from lookup_after_inserts [of "[(''carro'', 1, 3), (''carga'', 2, 1)]"] split_trie_built
  have "\<forall>w. w \<noteq> [] \<longrightarrow> find_trie split_trie w =
      map snd (filter (\<lambda>op. fst op = w) [(''carro'', 1, 3), (''carga'', 2, 1)])"
    by auto
  then have "find_trie split_trie ''carro'' = [(1, 3)]" "find_trie split_trie ''carga'' = [(2, 1)]"
    "find_trie split_trie ''car'' = []"
    by simp_all
  with split_trie_built show ?thesis by simp
qed

text \<open>
  Claim C4. Every sequence of \<open>insert\<close> calls on an empty trie returns a trie that
  satisfies the structural invariants: sibling labels start with pairwise distinct
  characters, no node but the root has an empty label, and every non-terminal node but
  the root has at least two children.
\<close>

theorem invariants_after_inserts:
  "\<exists>t. insert_all empty_trie ops = Some t \<and> trie_invariants t"
proof -
  from insert_all_well_formed [OF well_formed_empty, of ops] obtain t where
    t: "insert_all empty_trie ops = Some t" "well_formed t" by blast
  from t(2) have "trie_invariants t"
    unfolding trie_invariants_def by (rule well_formed_node_invariants) simp
  with t(1) show ?thesis by blast
qed

theorem invariants_after_inserts_witness:
  "insert_all empty_trie [(''carro'', 1, 3), (''carga'', 2, 1)] = Some split_trie \<and>
   trie_invariants split_trie"
  using invariants_after_inserts [of "[(''carro'', 1, 3), (''carga'', 2, 1)]"] split_trie_built
  by simp

text \<open>
  Claim C10. On the empty term both operations return: \<open>insert\<close> leaves every trie as
  it is, and on every trie built by \<open>insert\<close> calls from the empty trie \<open>find\<close> returns
  the empty list, because \<open>insert\<close> never marks the root terminal.
\<close>

theorem empty_term_is_harmless:
  "insert_trie n [] d f = Some n \<and>
   (\<exists>t. insert_all empty_trie ops = Some t \<and> \<not> is_terminal t \<and> find_trie t [] = [])"
proof -
  from insert_all_well_formed [OF well_formed_empty, of ops] obtain t where
    t: "insert_all empty_trie ops = Some t" by blast
  from insert_all_keeps_fields [OF t] have nt: "\<not> is_terminal t"
    by (simp add: empty_trie_def)
  then have "find_trie t [] = []" by (simp add: find_trie_Nil payload_def)
  with t nt show ?thesis by auto
qed

theorem empty_term_is_harmless_witness:
  "insert_trie split_trie [] 7 1 = Some split_trie \<and>
   insert_all empty_trie [(''carro'', 1, 3), ([], 9, 9), (''carga'', 2, 1)] = Some split_trie \<and>
   \<not> is_terminal split_trie \<and> find_trie split_trie [] = []"
proof -
  have b: "insert_all empty_trie [(''carro'', 1, 3), ([], 9, 9), (''carga'', 2, 1)] = Some split_trie"
    by code_simp
  from empty_term_is_harmless [of split_trie 7 1 "[(''carro'', 1, 3), ([], 9, 9), (''carga'', 2, 1)]"] b
  show ?thesis by simp
qed

section \<open>Facts about persistence\<close>

subsection \<open>A line parses to the fields it was written from\<close>






























subsection \<open>The loader rebuilds the tree from the lines\<close>



lemma map_of_set_child:
  "map_of (children (set_child n c a)) k = (if k = c then Some a else map_of (children n) k)"
  by (simp add: update_conv')












lemma sorted_copy_fields [simp]:
  "label (sorted_copy n) = label n" "is_terminal (sorted_copy n) = is_terminal n"
  "inverted_index (sorted_copy n) = inverted_index n"
  "children (sorted_copy n) = map (\<lambda>kc. (fst kc, sorted_copy (snd kc))) (sort_key fst (children n))"
  by (subst sorted_copy.simps, simp)+













section \<open>Claim about persistence\<close>



end
